theory Spec2Isabelle
  imports Main "HOL-Library.Product_Lexorder" "HOL-Library.Multiset"
begin

section \<open>Ordinance download pipeline (elm/ords/download.py)\<close>

subsection \<open>Errors\<close>

text \<open>
  Exceptions are values.  \<open>IndexError\<close> is raised by \<open>results[0]\<close> on an empty
  result, \<open>KeyError\<close> by \<open>doc.metadata["contains_ord_info"]\<close> on a document without
  that key, and \<open>Raised msg\<close> stands for an exception coming out of an external
  collaborator (search engine, file loader, county validator, ordinance check).
\<close>

datatype error = IndexError | KeyError | Raised string

subsection \<open>Candidate URL selection: \<open>_down_select_urls\<close>\<close>

text \<open>
  \<open>results[0]\<close> for one search result; \<open>[results[0] for results in search_results]\<close>
  for all of them.  The comprehension is evaluated completely before anything else
  happens, so an empty result raises before any URL is looked at.
\<close>

fun first_item :: "'a list \<Rightarrow> error + 'a" where
  "first_item [] = Inl IndexError"
| "first_item (x # _) = Inr x"

fun first_items :: "'a list list \<Rightarrow> error + 'a list" where
  "first_items [] = Inr []"
| "first_items (results # rest) =
     (case first_item results of
        Inl e \<Rightarrow> Inl e
      | Inr x \<Rightarrow> (case first_items rest of Inl e \<Rightarrow> Inl e | Inr xs \<Rightarrow> Inr (x # xs)))"

text \<open>
  \<open>itertools.zip_longest(*lists)\<close>: one row per rank; a list that is exhausted
  contributes the fill value \<open>None\<close>; the iteration ends when every list is
  exhausted (at once, when there is no list at all).
\<close>

fun item_or_fill :: "'a list \<Rightarrow> 'a option" where
  "item_or_fill [] = None"
| "item_or_fill (x # _) = Some x"

function zip_longest :: "'a list list \<Rightarrow> 'a option list list" where
  "zip_longest ls =
     (if list_all (\<lambda>l. l = []) ls then []
      else map item_or_fill ls # zip_longest (map tl ls))"
  by pat_completeness auto

termination zip_longest
proof (relation "measure (\<lambda>ls. sum_list (map length ls))")
  show "wf (measure (\<lambda>ls::'a list list. sum_list (map length ls)))"
    by simp
next
  fix ls :: "'a list list"
  assume "\<not> list_all (\<lambda>l. l = []) ls"
  then have "sum_list (map length (map tl ls)) < sum_list (map length ls)"
  proof (induction ls)
    case Nil
    then show ?case by simp
  next
    case (Cons l ls)
    have le: "sum_list (map length (map tl ls)) \<le> sum_list (map length ls)"
      by (induction ls) auto
    show ?case
    proof (cases "l = []")
      case True
      with Cons show ?thesis by simp
    next
      case False
      then have "length (tl l) < length l" by (cases l) auto
      with le show ?thesis by simp
    qed
  qed
  then show "(map tl ls, ls) \<in> measure (\<lambda>ls. sum_list (map length ls))"
    by simp
qed

declare zip_longest.simps [simp del]

text \<open>\<open>chain.from_iterable(zip_longest(...))\<close>: the rows one after the other.\<close>

definition all_urls :: "string list list \<Rightarrow> string option list" where
  "all_urls url_lists = concat (zip_longest url_lists)"

text \<open>\<open>not url\<close>: true of the fill value \<open>None\<close> and of the empty string.\<close>

fun falsy :: "string option \<Rightarrow> bool" where
  "falsy None = True"
| "falsy (Some u) = (u = [])"

text \<open>
  The \<open>for url in all_urls\<close> loop over the set \<open>urls\<close>: skip a falsy entry, add the
  URL, and leave the loop when the set has exactly \<open>num_urls\<close> elements.
\<close>

fun select_loop :: "string option list \<Rightarrow> string set \<Rightarrow> int \<Rightarrow> string set" where
  "select_loop [] urls num_urls = urls"
| "select_loop (url # rest) urls num_urls =
     (if falsy url then select_loop rest urls num_urls
      else let urls' = insert (the url) urls
           in if int (card urls') = num_urls then urls'
              else select_loop rest urls' num_urls)"

definition down_select_urls :: "string list list list \<Rightarrow> int \<Rightarrow> error + string set" where
  "down_select_urls search_results num_urls =
     (case first_items search_results of
        Inl e \<Rightarrow> Inl e
      | Inr url_lists \<Rightarrow> Inr (select_loop (all_urls url_lists) {} num_urls))"

subsection \<open>Documents and locations\<close>

text \<open>
  A document as the pipeline reads it: whether it is an instance of \<open>PDFDocument\<close>,
  its \<open>text\<close>, and the two entries of its \<open>metadata\<close> dictionary that the code
  looks up.  A key that is not in the dictionary is \<open>None\<close>.  The \<open>"date"\<close> entry is a
  triple of integers (year, month, day).
\<close>

record metadata =
  contains_ord_info :: "bool option"
  date :: "(int \<times> int \<times> int) option"

record document =
  is_PDFDocument :: bool
  doc_text :: string
  metadata :: metadata

record location =
  full_name :: string
  name :: string
  state :: string

subsection \<open>Best match: \<open>_ord_doc_sorting_key\<close> and \<open>_parse_all_ord_docs\<close>\<close>

text \<open>
  \<open>doc.metadata.get("date", (-1, -1, -1))\<close>, unpacked, and the key tuple.  Python
  compares tuples lexicographically and \<open>False < True\<close>, as the product order of
  \<open>Product_Lexorder\<close> and the order on \<open>bool\<close> do.
\<close>

definition ord_doc_sorting_key :: "document \<Rightarrow> int \<times> bool \<times> int \<times> int \<times> int" where
  "ord_doc_sorting_key doc =
     (case (case date (metadata doc) of None \<Rightarrow> (- 1, - 1, - 1) | Some d \<Rightarrow> d) of
        (year, month, day) \<Rightarrow>
          (year, is_PDFDocument doc, - 1 * int (length (doc_text doc)), month, day))"

text \<open>
  \<open>sorted\<close> is stable, and so is \<open>sort_key\<close>; \<open>[-1]\<close> on a non-empty list is its
  last element.
\<close>

definition parse_all_ord_docs :: "document list \<Rightarrow> document option" where
  "parse_all_ord_docs all_ord_docs =
     (if all_ord_docs = [] then None
      else Some (last (sort_key ord_doc_sorting_key all_ord_docs)))"

subsection \<open>External collaborators and the trace of their calls\<close>

text \<open>
  The search engine, the file loader, the county validator and the ordinance check are
  not part of this module: they are parameters.  Each may raise.  \<open>engine_results\<close> is
  \<open>PlaywrightGoogleLinkSearch(**kwargs).results(query, num_results=n)\<close>, which returns
  one list of links per query; \<open>fetch_all\<close> is \<open>AsyncFileLoader.fetch_all(*urls)\<close>;
  \<open>county_check\<close> is \<open>CountyValidator.check(doc, county=, state=)\<close>;
  \<open>check_for_ordinance_info\<close> returns the document with its metadata filled in.
\<close>

record collaborators =
  engine_results :: "string \<Rightarrow> int \<Rightarrow> error + string list list"
  fetch_all :: "string set \<Rightarrow> error + document list"
  county_check :: "document \<Rightarrow> string \<Rightarrow> string \<Rightarrow> error + bool"
  check_for_ordinance_info :: "document \<Rightarrow> error + document"

text \<open>Every call of a collaborator is recorded, with its arguments, in call order.\<close>

datatype event =
    SearchCall string int
  | FetchCall "string set"
  | CountyCheckCall document string string
  | OrdInfoCall document

type_synonym 'a traced = "event list \<times> (error + 'a)"

text \<open>Sequencing of two steps: an exception of the first skips the second.\<close>

definition and_then :: "'a traced \<Rightarrow> ('a \<Rightarrow> 'b traced) \<Rightarrow> 'b traced" where
  "and_then step rest =
     (case step of
        (t, Inl e) \<Rightarrow> (t, Inl e)
      | (t, Inr v) \<Rightarrow> (case rest v of (t', r) \<Rightarrow> (t @ t', r)))"

text \<open>
  \<open>await asyncio.gather(*tasks)\<close> over tasks made with \<open>asyncio.create_task\<close>: every
  task is started, so every call is in the trace; the values come back in task order;
  if a task raises, \<open>gather\<close> raises.  With several failing tasks \<open>asyncio.gather\<close>
  raises the exception that is raised first in time, which depends on the scheduling;
  the model takes the tasks to finish in task order and reports the exception of the
  first failing one.  The properties below only use that the exception is that of a
  failing task.
\<close>

fun gather :: "'a traced list \<Rightarrow> 'a list traced" where
  "gather [] = ([], Inr [])"
| "gather ((t, r) # tasks) =
     (case gather tasks of
        (ts, rs) \<Rightarrow>
          (t @ ts,
           case r of
             Inl e \<Rightarrow> Inl e
           | Inr v \<Rightarrow> (case rs of Inl e \<Rightarrow> Inl e | Inr vs \<Rightarrow> Inr (v # vs))))"

subsection \<open>Search fan-out: \<open>_search_single\<close> and \<open>_find_urls\<close>\<close>

text \<open>
  A question template is the text before and the text after its single
  \<open>{location}\<close> field; \<open>question.format(location=location)\<close> puts the location
  between the two.
\<close>

type_synonym question = "string \<times> string"

definition QUESTION_TEMPLATES :: "question list" where
  \<open>QUESTION_TEMPLATES =
     [(''0. "wind energy conversion system zoning ordinances '', ''"''),
      (''1. "'', '' wind WECS zoning ordinance"''),
      (''2. "Where can I find the legal text for commercial wind energy conversion system zoning ordinances in '', ''?"''),
      (''3. "What is the specific legal information regarding zoning ordinances for commercial wind energy conversion systems in '', ''?"'')]\<close>

fun format_question :: "question \<Rightarrow> string \<Rightarrow> string" where
  "format_question (before, after) loc = before @ loc @ after"

definition search_single ::
  "collaborators \<Rightarrow> string \<Rightarrow> question \<Rightarrow> int \<Rightarrow> string list list traced" where
  "search_single env loc question num_results =
     ([SearchCall (format_question question loc) num_results],
      engine_results env (format_question question loc) num_results)"

definition find_urls :: "collaborators \<Rightarrow> string \<Rightarrow> int \<Rightarrow> string list list list traced" where
  "find_urls env loc num_results =
     gather (map (\<lambda>q. search_single env loc q num_results) QUESTION_TEMPLATES)"

subsection \<open>Loading: \<open>_load_docs\<close>\<close>

definition load_docs :: "collaborators \<Rightarrow> string set \<Rightarrow> document list traced" where
  "load_docs env urls = ([FetchCall urls], fetch_all env urls)"

subsection \<open>Jurisdiction filter: \<open>_down_select_docs_correct_location\<close>\<close>

text \<open>The sorting key of the surviving documents, as the \<open>lambda\<close> of the source.\<close>

definition correct_loc_key :: "document \<Rightarrow> bool \<times> int" where
  "correct_loc_key doc = (\<not> is_PDFDocument doc, int (length (doc_text doc)))"

text \<open>\<open>location\<close> only names the tasks.\<close>

definition down_select_docs_correct_location ::
  "collaborators \<Rightarrow> document list \<Rightarrow> string \<Rightarrow> string \<Rightarrow> string \<Rightarrow> document list traced" where
  "down_select_docs_correct_location env docs loc county st =
     and_then
       (gather (map (\<lambda>doc. ([CountyCheckCall doc county st], county_check env doc county st)) docs))
       (\<lambda>output.
          ([], Inr (sort_key correct_loc_key
                      (map fst (filter (\<lambda>(doc, check). check) (zip docs output))))))"

subsection \<open>Content classification: \<open>_check_docs_for_ords\<close>\<close>

text \<open>
  The sequential loop, with the list \<open>ord_docs\<close> built so far.  An exception of the
  check, or a checked document without the \<open>"contains_ord_info"\<close> key, ends the loop.
\<close>

fun check_docs_loop ::
  "collaborators \<Rightarrow> document list \<Rightarrow> document list \<Rightarrow> document list traced" where
  "check_docs_loop env [] ord_docs = ([], Inr ord_docs)"
| "check_docs_loop env (doc # docs) ord_docs =
     (case check_for_ordinance_info env doc of
        Inl e \<Rightarrow> ([OrdInfoCall doc], Inl e)
      | Inr doc' \<Rightarrow>
          (case contains_ord_info (metadata doc') of
             None \<Rightarrow> ([OrdInfoCall doc], Inl KeyError)
           | Some flag \<Rightarrow>
               (case check_docs_loop env docs (if flag then ord_docs @ [doc'] else ord_docs) of
                  (t, r) \<Rightarrow> (OrdInfoCall doc # t, r))))"

definition check_docs_for_ords :: "collaborators \<Rightarrow> document list \<Rightarrow> document list traced" where
  "check_docs_for_ords env docs = check_docs_loop env docs []"

subsection \<open>The pipeline: \<open>download_county_ordinance\<close>\<close>

text \<open>
  The stages in sequence, with no test between them: a stage that returns an empty
  collection hands it to the next stage.  The text splitter and the keyword arguments
  only reach the collaborators, and the \<open>logger.info\<close> line does not change the
  result; they are left out.
\<close>

definition download_county_ordinance ::
  "collaborators \<Rightarrow> location \<Rightarrow> int \<Rightarrow> document option traced" where
  "download_county_ordinance env location num_urls =
     and_then (find_urls env (full_name location) 10) (\<lambda>search_results.
     and_then ([], down_select_urls search_results num_urls) (\<lambda>urls.
     and_then (load_docs env urls) (\<lambda>docs.
     and_then (down_select_docs_correct_location env docs
                 (full_name location) (name location) (state location)) (\<lambda>correct_loc_docs.
     and_then (check_docs_for_ords env correct_loc_docs) (\<lambda>ord_docs.
     ([], Inr (parse_all_ord_docs ord_docs)))))))"

subsection \<open>Notions used to state the properties\<close>

text \<open>The entries of a traversal that the loop does not skip, in order.\<close>

definition truthy :: "string option list \<Rightarrow> string list" where
  "truthy xs = map the (filter (\<lambda>u. \<not> falsy u) xs)"

text \<open>The entry of rank \<open>r\<close> of a list, if the list has one.\<close>

definition item_at :: "nat \<Rightarrow> 'a list \<Rightarrow> 'a option" where
  "item_at r l = (if r < length l then Some (l ! r) else None)"

text \<open>The length of the longest of several lists.\<close>

fun longest :: "'a list list \<Rightarrow> nat" where
  "longest [] = 0"
| "longest (l # ls) = max (length l) (longest ls)"

text \<open>
  The column-major reading of several ranked lists, written without the loop: rank by
  rank, and within a rank list by list, a list that has no entry of that rank
  contributing nothing.  The candidates are its non-empty URLs.
\<close>

definition column_major :: "'a list list \<Rightarrow> 'a list" where
  "column_major url_lists =
     concat (map (\<lambda>rank. concat (map (\<lambda>l. if rank < length l then [l ! rank] else []) url_lists))
               [0..<longest url_lists])"

definition candidates :: "string list list \<Rightarrow> string list" where
  "candidates url_lists = filter (\<lambda>u. u \<noteq> []) (column_major url_lists)"

text \<open>
  The key of the best-match selection in the words of the specification: year, month
  and day of the publication date, each \<open>-1\<close> when the document has no date; the
  composite key; and the tie-break chain it stands for (\<open>doc\<close> does not beat
  \<open>best\<close>).
\<close>

definition pub_year :: "document \<Rightarrow> int" where
  "pub_year doc = (case date (metadata doc) of None \<Rightarrow> - 1 | Some (y, m, d) \<Rightarrow> y)"

definition pub_month :: "document \<Rightarrow> int" where
  "pub_month doc = (case date (metadata doc) of None \<Rightarrow> - 1 | Some (y, m, d) \<Rightarrow> m)"

definition pub_day :: "document \<Rightarrow> int" where
  "pub_day doc = (case date (metadata doc) of None \<Rightarrow> - 1 | Some (y, m, d) \<Rightarrow> d)"

definition composite_key :: "document \<Rightarrow> int \<times> bool \<times> int \<times> int \<times> int" where
  "composite_key doc =
     (pub_year doc, is_PDFDocument doc, - int (length (doc_text doc)), pub_month doc, pub_day doc)"

definition not_preferred_to :: "document \<Rightarrow> document \<Rightarrow> bool" where
  "not_preferred_to doc best \<longleftrightarrow>
     pub_year doc < pub_year best \<or>
     pub_year doc = pub_year best \<and>
     (\<not> is_PDFDocument doc \<and> is_PDFDocument best \<or>
      is_PDFDocument doc = is_PDFDocument best \<and>
      (length (doc_text best) < length (doc_text doc) \<or>
       length (doc_text best) = length (doc_text doc) \<and>
       (pub_month doc < pub_month best \<or>
        pub_month doc = pub_month best \<and> pub_day doc \<le> pub_day best)))"

text \<open>
  Two orders for the documents that pass the jurisdiction check: the key (document is a
  PDF, text length), and the relation "a PDF before a non-PDF, and within one format
  the shorter text first".
\<close>

definition claimed_loc_key :: "document \<Rightarrow> bool \<times> int" where
  "claimed_loc_key doc = (is_PDFDocument doc, int (length (doc_text doc)))"

definition pdf_first_then_shorter :: "document \<Rightarrow> document \<Rightarrow> bool" where
  "pdf_first_then_shorter a b \<longleftrightarrow>
     is_PDFDocument a \<and> \<not> is_PDFDocument b \<or>
     is_PDFDocument a = is_PDFDocument b \<and> length (doc_text a) \<le> length (doc_text b)"

text \<open>Sample documents and collaborators.\<close>

definition pdf_2020_long :: document where
  "pdf_2020_long = \<lparr>is_PDFDocument = True, doc_text = ''wind energy ordinance'',
     metadata = \<lparr>contains_ord_info = Some True, date = Some (2020, 3, 1)\<rparr>\<rparr>"

definition pdf_2020_short :: document where
  "pdf_2020_short = \<lparr>is_PDFDocument = True, doc_text = ''wind'',
     metadata = \<lparr>contains_ord_info = Some True, date = Some (2020, 1, 1)\<rparr>\<rparr>"

definition html_2020 :: document where
  "html_2020 = \<lparr>is_PDFDocument = False, doc_text = ''w'',
     metadata = \<lparr>contains_ord_info = Some True, date = Some (2020, 12, 31)\<rparr>\<rparr>"

definition html_undated :: document where
  "html_undated = \<lparr>is_PDFDocument = False, doc_text = ''zoning'',
     metadata = \<lparr>contains_ord_info = Some True, date = None\<rparr>\<rparr>"

definition html_undated_twin :: document where
  "html_undated_twin = \<lparr>is_PDFDocument = False, doc_text = ''county'',
     metadata = \<lparr>contains_ord_info = Some True, date = None\<rparr>\<rparr>"

definition accept_county :: "document \<Rightarrow> string \<Rightarrow> string \<Rightarrow> error + bool" where
  "accept_county doc county st = Inr True"

definition no_links :: "string \<Rightarrow> int \<Rightarrow> error + string list list" where
  "no_links query num_results = Inr [[]]"

definition no_docs :: "string set \<Rightarrow> error + document list" where
  "no_docs urls = Inr []"

definition keep_doc :: "document \<Rightarrow> error + document" where
  "keep_doc doc = Inr doc"

definition accepting :: collaborators where
  "accepting = \<lparr>engine_results = no_links, fetch_all = no_docs,
     county_check = accept_county, check_for_ordinance_info = keep_doc\<rparr>"

text \<open>
  The two kinds of classifier call in a trace, the flag the content classification
  reads, and the document the ordinance check returns for a document.
\<close>

fun is_county_check_call :: "event \<Rightarrow> bool" where
  "is_county_check_call (CountyCheckCall doc county st) = True"
| "is_county_check_call ev = False"

fun is_ord_info_call :: "event \<Rightarrow> bool" where
  "is_ord_info_call (OrdInfoCall doc) = True"
| "is_ord_info_call ev = False"

definition has_ord_info :: "document \<Rightarrow> bool" where
  "has_ord_info doc \<longleftrightarrow> contains_ord_info (metadata doc) = Some True"

definition checked :: "collaborators \<Rightarrow> document \<Rightarrow> document" where
  "checked env doc = projr (check_for_ordinance_info env doc)"

text \<open>More sample collaborators, and a sample location.\<close>

definition flag_pdfs :: "document \<Rightarrow> error + document" where
  "flag_pdfs doc =
     Inr (doc\<lparr>metadata := (metadata doc)\<lparr>contains_ord_info := Some (is_PDFDocument doc)\<rparr>\<rparr>)"

definition flag_none :: "document \<Rightarrow> error + document" where
  "flag_none doc = Inr (doc\<lparr>metadata := (metadata doc)\<lparr>contains_ord_info := Some False\<rparr>\<rparr>)"

definition reject_county :: "document \<Rightarrow> string \<Rightarrow> string \<Rightarrow> error + bool" where
  "reject_county doc county st = Inr False"

definition county_check_down :: "document \<Rightarrow> string \<Rightarrow> string \<Rightarrow> error + bool" where
  "county_check_down doc county st = Inl (Raised ''validator unavailable'')"

definition search_down :: "string \<Rightarrow> int \<Rightarrow> error + string list list" where
  "search_down query num_results = Inl (Raised ''search unavailable'')"

definition one_link :: "string \<Rightarrow> int \<Rightarrow> error + string list list" where
  "one_link query num_results = Inr [[''https://county.example/ordinance.pdf'']]"

definition load_two :: "string set \<Rightarrow> error + document list" where
  "load_two urls = Inr [html_2020, pdf_2020_long]"

definition decatur :: location where
  "decatur = \<lparr>full_name = ''Decatur County, Indiana'', name = ''Decatur'', state = ''Indiana''\<rparr>"

section \<open>Properties\<close>

subsection \<open>Candidate URL selection\<close>

lemma truthy_simps [simp]:
  "truthy [] = []"
  "truthy (u # us) = (if falsy u then truthy us else the u # truthy us)"
  by (simp_all add: truthy_def)

lemma select_loop_prefix:
  "\<exists>k\<le>length (truthy xs).
     select_loop xs acc n = acc \<union> set (take k (truthy xs)) \<and>
     (k < length (truthy xs) \<longrightarrow> int (card (acc \<union> set (take k (truthy xs)))) = n) \<and>
     (\<forall>j. 0 < j \<and> j < k \<longrightarrow> int (card (acc \<union> set (take j (truthy xs)))) \<noteq> n)"
proof (induction xs arbitrary: acc)
  case Nil
  then show ?case by simp
next
  case (Cons u us)
  show ?case
  proof (cases "falsy u")
    case True
    with Cons.IH [of acc] show ?thesis by simp
  next
    case False
    let ?acc = "insert (the u) acc"
    show ?thesis
    proof (cases "int (card ?acc) = n")
      case True
      with False show ?thesis
        by (intro exI [of _ 1]) (auto simp add: Let_def)
    next
      case stop: False
      from Cons.IH [of ?acc] obtain k where k: "k \<le> length (truthy us)"
        "select_loop us ?acc n = ?acc \<union> set (take k (truthy us))"
        "k < length (truthy us) \<longrightarrow> int (card (?acc \<union> set (take k (truthy us)))) = n"
        "\<forall>j. 0 < j \<and> j < k \<longrightarrow> int (card (?acc \<union> set (take j (truthy us)))) \<noteq> n"
        by blast
      have "\<forall>j. 0 < j \<and> j < Suc k \<longrightarrow> int (card (acc \<union> set (take j (truthy (u # us))))) \<noteq> n"
      proof (intro allI impI)
        fix j assume j: "0 < j \<and> j < Suc k"
        then obtain i where i: "j = Suc i" by (cases j) auto
        show "int (card (acc \<union> set (take j (truthy (u # us))))) \<noteq> n"
        proof (cases "i = 0")
          case True
          with i False stop show ?thesis by simp
        next
          case nz: False
          with i j k(4) have "int (card (?acc \<union> set (take i (truthy us)))) \<noteq> n" by simp
          with i False show ?thesis by simp
        qed
      qed
      with k False stop show ?thesis
        by (intro exI [of _ "Suc k"]) (simp add: Let_def)
    qed
  qed
qed

lemma select_loop_finite: "finite acc \<Longrightarrow> finite (select_loop xs acc n)"
  by (induction xs arbitrary: acc) (auto simp: Let_def)

lemma select_loop_card:
  "finite acc \<Longrightarrow> int (card acc) < n \<Longrightarrow> int (card (select_loop xs acc n)) \<le> n"
proof (induction xs arbitrary: acc)
  case Nil
  then show ?case by simp
next
  case (Cons u us)
  have "int (card (insert (the u) acc)) \<le> n"
    using Cons.prems by (simp add: card_insert_if)
  with Cons show ?case by (auto simp: Let_def)
qed

lemma select_loop_no_cap:
  "finite acc \<Longrightarrow> n \<le> 0 \<Longrightarrow> select_loop xs acc n = acc \<union> set (truthy xs)"
proof (induction xs arbitrary: acc)
  case Nil
  then show ?case by simp
next
  case (Cons u us)
  have "card (insert (the u) acc) > 0"
    using Cons.prems by (simp add: card_gt_0_iff)
  with Cons.prems have "int (card (insert (the u) acc)) \<noteq> n"
    by linarith
  with Cons show ?case by (auto simp: Let_def)
qed

lemma select_loop_subset: "select_loop xs acc n \<subseteq> acc \<union> set (truthy xs)"
  by (induction xs arbitrary: acc) (auto simp: Let_def)

lemma longest_0_iff: "longest ls = 0 \<longleftrightarrow> list_all (\<lambda>l. l = []) ls"
  by (induction ls) auto

lemma longest_tl: "longest (map tl ls) = longest ls - 1"
  by (induction ls) auto

lemma item_at_0: "item_at 0 l = item_or_fill l"
  by (cases l) (simp_all add: item_at_def)

lemma item_at_Suc: "item_at (Suc r) l = item_at r (tl l)"
  by (cases l) (simp_all add: item_at_def)

lemma zip_longest_rows:
  "zip_longest ls = map (\<lambda>r. map (item_at r) ls) [0..<longest ls]"
proof (induction ls rule: zip_longest.induct)
  case (1 ls)
  show ?case
  proof (cases "list_all (\<lambda>l. l = []) ls")
    case True
    then show ?thesis
      by (simp add: zip_longest.simps [of ls] longest_0_iff)
  next
    case False
    then obtain n where n: "longest ls = Suc n"
      using longest_0_iff [of ls] by (cases "longest ls") auto
    then have tl: "longest (map tl ls) = n"
      by (simp add: longest_tl)
    have "zip_longest ls = map item_or_fill ls # zip_longest (map tl ls)"
      using False by (simp add: zip_longest.simps [of ls])
    also have "zip_longest (map tl ls) = map (\<lambda>r. map (item_at r) (map tl ls)) [0..<n]"
      using "1.IH" [OF False] tl by simp
    also have "map item_or_fill ls # map (\<lambda>r. map (item_at r) (map tl ls)) [0..<n]
        = map (\<lambda>r. map (item_at r) ls) (0 # map Suc [0..<n])"
      by (simp add: item_at_0 item_at_Suc comp_def)
    also have "0 # map Suc [0..<n] = [0..<longest ls]"
      by (simp add: n map_Suc_upt upt_conv_Cons)
    finally show ?thesis .
  qed
qed

lemma all_urls_example:
  "all_urls [[a, b], [c, d], [e, f]] = [Some a, Some c, Some e, Some b, Some d, Some f]"
  by (simp add: all_urls_def zip_longest_rows item_at_def upt_rec)

lemma length_le_longest: "l \<in> set ls \<Longrightarrow> length l \<le> longest ls"
  by (induction ls) auto

lemma in_rows:
  "x \<in> set (concat (map (\<lambda>r. map (item_at r) ls) [0..<n])) \<longleftrightarrow>
     (\<exists>r<n. \<exists>l\<in>set ls. x = item_at r l)"
  by auto

lemma Some_in_all_urls:
  "Some u \<in> set (all_urls ls) \<longleftrightarrow> (\<exists>l\<in>set ls. u \<in> set l)"
proof
  assume "Some u \<in> set (all_urls ls)"
  then obtain r l where "l \<in> set ls" "Some u = item_at r l"
    unfolding all_urls_def zip_longest_rows in_rows by blast
  then have "l \<in> set ls" "u \<in> set l"
    by (auto simp: item_at_def split: if_splits)
  then show "\<exists>l\<in>set ls. u \<in> set l" by blast
next
  assume "\<exists>l\<in>set ls. u \<in> set l"
  then obtain l r where l: "l \<in> set ls" "r < length l" "l ! r = u"
    by (auto simp: in_set_conv_nth)
  then have "r < longest ls" "Some u = item_at r l"
    using length_le_longest [OF l(1)] by (simp_all add: item_at_def)
  with l(1) show "Some u \<in> set (all_urls ls)"
    unfolding all_urls_def zip_longest_rows in_rows by blast
qed

lemma set_truthy: "set (truthy xs) = {u. Some u \<in> set xs \<and> u \<noteq> []}"
proof (induction xs)
  case Nil
  then show ?case by simp
next
  case (Cons x xs)
  then show ?case by (cases x) auto
qed

lemma set_truthy_all_urls:
  "set (truthy (all_urls ls)) = (\<Union>l\<in>set ls. set l) - {[]}"
  unfolding set_truthy Some_in_all_urls by blast

lemma first_items_eq:
  "first_items srs = (if [] \<in> set srs then Inl IndexError else Inr (map hd srs))"
proof (induction srs)
  case Nil
  then show ?case by simp
next
  case (Cons r rs)
  then show ?case by (cases r) auto
qed

lemma first_items_Inr_iff: "first_items srs = Inr ls \<longleftrightarrow> [] \<notin> set srs \<and> ls = map hd srs"
  by (auto simp: first_items_eq)

text \<open>
  Claim C9.  With \<open>num_urls = 0\<close> the cap is never enforced: the size of the set is
  compared with the cap only after an insertion, when it is at least one.  The function
  returns every distinct non-empty URL of all the per-template lists (or raises, when a
  search result has no first item).
\<close>

theorem down_select_urls_zero_cap:
  "down_select_urls search_results 0 =
     (case first_items search_results of
        Inl e \<Rightarrow> Inl e
      | Inr url_lists \<Rightarrow> Inr ((\<Union>l\<in>set url_lists. set l) - {[]}))"
  by (simp add: down_select_urls_def select_loop_no_cap set_truthy_all_urls split: sum.splits)

text \<open>Two templates that share the URL \<open>a\<close>, one with an empty URL, and cap 0.\<close>

theorem down_select_urls_zero_cap_witness:
  "down_select_urls [[[''a'', ''b'']], [[''c'', ''a'', '''']]] 0 = Inr {''a'', ''b'', ''c''}"
  using down_select_urls_zero_cap [of "[[[''a'', ''b'']], [[''c'', ''a'', '''']]]"]
  by auto

lemma truthy_append: "truthy (xs @ ys) = truthy xs @ truthy ys"
  by (simp add: truthy_def)

lemma truthy_concat: "truthy (concat xss) = concat (map truthy xss)"
  by (induction xss) (simp_all add: truthy_append)

lemma truthy_row:
  "truthy (map (item_at r) ls)
     = filter (\<lambda>u. u \<noteq> []) (concat (map (\<lambda>l. if r < length l then [l ! r] else []) ls))"
  by (induction ls) (simp_all add: item_at_def)

lemma truthy_all_urls: "truthy (all_urls ls) = candidates ls"
  by (simp add: all_urls_def zip_longest_rows truthy_concat comp_def truthy_row
      candidates_def column_major_def filter_concat)

text \<open>
  Claim C3.  The traversal is column-major: row \<open>rank\<close> holds the entry of that rank
  of every template, in template order, with the fill value for an exhausted template.
  The URLs that are added are the candidates: the column-major sequence of the
  per-template lists \<open>results[0]\<close>, exhausted templates skipped, without the empty
  URLs.  The returned set is the set of a prefix of the candidates; the prefix ends
  early only where the set has exactly \<open>num_urls\<close> elements, and no shorter non-empty
  prefix has that many.  A search result without a first item raises.  For the lists
  \<open>[[a, b], [c, d], [e, f]]\<close> the traversal is \<open>a, c, e, b, d, f\<close>, and with cap 4
  (and \<open>a, c, e, b\<close> four different non-empty URLs) the set is \<open>{a, c, e, b}\<close>.
\<close>

theorem down_select_urls_round_robin:
  "all_urls url_lists =
     concat (map (\<lambda>rank. map (item_at rank) url_lists) [0..<longest url_lists])
   \<and> ([] \<in> set search_results \<longrightarrow> down_select_urls search_results num_urls = Inl IndexError)
   \<and> ([] \<notin> set search_results \<longrightarrow>
        (\<exists>k\<le>length (candidates (map hd search_results)).
           down_select_urls search_results num_urls
             = Inr (set (take k (candidates (map hd search_results)))) \<and>
           (k < length (candidates (map hd search_results)) \<longrightarrow>
              int (card (set (take k (candidates (map hd search_results))))) = num_urls) \<and>
           (\<forall>j. 0 < j \<and> j < k \<longrightarrow>
              int (card (set (take j (candidates (map hd search_results))))) \<noteq> num_urls)))
   \<and> (distinct [a, c, e, b] \<and> [] \<notin> set [a, c, e, b] \<longrightarrow>
        all_urls [[a, b], [c, d], [e, f]]
          = [Some a, Some c, Some e, Some b, Some d, Some f] \<and>
        column_major [[a, b], [c, d], [e, f]] = [a, c, e, b, d, f] \<and>
        down_select_urls [[[a, b]], [[c, d]], [[e, f]]] 4 = Inr {a, c, e, b})"
proof (intro conjI)
  show "all_urls url_lists =
     concat (map (\<lambda>rank. map (item_at rank) url_lists) [0..<longest url_lists])"
    by (simp add: all_urls_def zip_longest_rows)
  show "[] \<in> set search_results \<longrightarrow> down_select_urls search_results num_urls = Inl IndexError"
    by (simp add: down_select_urls_def first_items_eq)
  show "[] \<notin> set search_results \<longrightarrow>
        (\<exists>k\<le>length (candidates (map hd search_results)).
           down_select_urls search_results num_urls
             = Inr (set (take k (candidates (map hd search_results)))) \<and>
           (k < length (candidates (map hd search_results)) \<longrightarrow>
              int (card (set (take k (candidates (map hd search_results))))) = num_urls) \<and>
           (\<forall>j. 0 < j \<and> j < k \<longrightarrow>
              int (card (set (take j (candidates (map hd search_results))))) \<noteq> num_urls))"
    using select_loop_prefix [of "all_urls (map hd search_results)" "{}" num_urls]
    by (simp add: down_select_urls_def first_items_eq truthy_all_urls)
  show "distinct [a, c, e, b] \<and> [] \<notin> set [a, c, e, b] \<longrightarrow>
        all_urls [[a, b], [c, d], [e, f]]
          = [Some a, Some c, Some e, Some b, Some d, Some f] \<and>
        column_major [[a, b], [c, d], [e, f]] = [a, c, e, b, d, f] \<and>
        down_select_urls [[[a, b]], [[c, d]], [[e, f]]] 4 = Inr {a, c, e, b}"
    by (auto simp add: down_select_urls_def all_urls_example column_major_def upt_rec)
qed

text \<open>
  The example at six concrete URLs; and three templates of different lengths, one with
  an empty URL: the exhausted templates and the empty URL are skipped, with cap 4 the
  fifth candidate is left out, with cap 9 all five are returned.
\<close>

theorem down_select_urls_round_robin_witness:
  "all_urls [[''a'', ''b''], [''c'', ''d''], [''e'', ''f'']]
     = [Some ''a'', Some ''c'', Some ''e'', Some ''b'', Some ''d'', Some ''f'']
   \<and> down_select_urls [[[''a'', ''b'']], [[''c'', ''d'']], [[''e'', ''f'']]] 4
     = Inr {''a'', ''c'', ''e'', ''b''}
   \<and> all_urls [[''a'', ''b'', ''c''], [''d''], ['''', ''e'']]
     = [Some ''a'', Some ''d'', Some '''', Some ''b'', None, Some ''e'', Some ''c'', None, None]
   \<and> candidates [[''a'', ''b'', ''c''], [''d''], ['''', ''e'']] = [''a'', ''d'', ''b'', ''e'', ''c'']
   \<and> down_select_urls [[[''a'', ''b'', ''c'']], [[''d'']], [['''', ''e'']]] 4
     = Inr {''a'', ''d'', ''b'', ''e''}
   \<and> down_select_urls [[[''a'', ''b'', ''c'']], [[''d'']], [['''', ''e'']]] 9
     = Inr {''a'', ''d'', ''b'', ''e'', ''c''}"
proof -
  let ?uneven = "[[[''a'', ''b'', ''c'']], [[''d'']], [['''', ''e'']]]"
  have urls: "distinct [''a'', ''c'', ''e'', ''b''] \<and> [] \<notin> set [''a'', ''c'', ''e'', ''b'']"
    by simp
  from down_select_urls_round_robin [where a = "''a''" and b = "''b''" and c = "''c''"
      and d = "''d''" and e = "''e''" and f = "''f''"] urls
  have example: "all_urls [[''a'', ''b''], [''c'', ''d''], [''e'', ''f'']]
     = [Some ''a'', Some ''c'', Some ''e'', Some ''b'', Some ''d'', Some ''f'']
   \<and> down_select_urls [[[''a'', ''b'']], [[''c'', ''d'']], [[''e'', ''f'']]] 4
     = Inr {''a'', ''c'', ''e'', ''b''}"
    by blast
  have rows: "all_urls [[''a'', ''b'', ''c''], [''d''], ['''', ''e'']]
     = [Some ''a'', Some ''d'', Some '''', Some ''b'', None, Some ''e'', Some ''c'', None, None]"
    using down_select_urls_round_robin [of "[[''a'', ''b'', ''c''], [''d''], ['''', ''e'']]"]
    by (simp add: item_at_def upt_rec)
  have cands: "candidates (map hd ?uneven) = [''a'', ''d'', ''b'', ''e'', ''c'']"
    by (simp add: candidates_def column_major_def upt_rec)
  have ok: "[] \<notin> set ?uneven"
    by simp
  have take4: "\<And>k. k \<le> 5 \<Longrightarrow> k < 5 \<longrightarrow> int (card (set (take k [''a'', ''d'', ''b'', ''e'', ''c'']))) = 4 \<Longrightarrow>
      (\<forall>j. 0 < j \<and> j < k \<longrightarrow> int (card (set (take j [''a'', ''d'', ''b'', ''e'', ''c'']))) \<noteq> 4) \<Longrightarrow> k = 4"
  proof -
    fix k :: nat
    assume k: "k \<le> 5" "k < 5 \<longrightarrow> int (card (set (take k [''a'', ''d'', ''b'', ''e'', ''c'']))) = 4"
      "\<forall>j. 0 < j \<and> j < k \<longrightarrow> int (card (set (take j [''a'', ''d'', ''b'', ''e'', ''c'']))) \<noteq> 4"
    have c4: "int (card (set (take 4 [''a'', ''d'', ''b'', ''e'', ''c'']))) = 4" by simp
    from k(1) consider "k = 0" | "k = 1" | "k = 2" | "k = 3" | "k = 4" | "k = 5" by linarith
    then show "k = 4"
    proof cases
      case 6
      from k(3) have "0 < (4::nat) \<and> 4 < k \<longrightarrow>
          int (card (set (take 4 [''a'', ''d'', ''b'', ''e'', ''c'']))) \<noteq> 4"
        by (rule spec)
      with 6 c4 show ?thesis by simp
    qed (use k(2) in simp_all)
  qed
  from down_select_urls_round_robin [of _ ?uneven 4] ok
  obtain k where k: "k \<le> length (candidates (map hd ?uneven))"
    "down_select_urls ?uneven 4 = Inr (set (take k (candidates (map hd ?uneven))))"
    "k < length (candidates (map hd ?uneven)) \<longrightarrow>
       int (card (set (take k (candidates (map hd ?uneven))))) = 4"
    "\<forall>j. 0 < j \<and> j < k \<longrightarrow> int (card (set (take j (candidates (map hd ?uneven))))) \<noteq> 4"
    by blast
  have "k = 4"
    using take4 [of k] k(1,3,4) unfolding cands by simp
  with k(2) have capped: "down_select_urls ?uneven 4 = Inr {''a'', ''d'', ''b'', ''e''}"
    unfolding cands by auto
  have all: "down_select_urls ?uneven 9 = Inr {''a'', ''d'', ''b'', ''e'', ''c''}"
    by (auto simp add: down_select_urls_def all_urls_def zip_longest_rows item_at_def upt_rec)
  from example rows cands capped all show ?thesis by simp
qed

text \<open>
  For a cap of at least one, the returned set has at most that many elements, each a
  non-empty URL of one of the per-template lists.
\<close>

lemma down_select_urls_within_cap:
  assumes "0 < num_urls" "down_select_urls search_results num_urls = Inr urls"
  shows "finite urls \<and> int (card urls) \<le> num_urls \<and>
         (\<forall>u\<in>urls. u \<noteq> [] \<and> (\<exists>results\<in>set search_results. u \<in> set (hd results)))"
proof -
  from assms(2) obtain ls where ls: "first_items search_results = Inr ls"
    "urls = select_loop (all_urls ls) {} num_urls"
    by (auto simp: down_select_urls_def split: sum.splits)
  have "urls \<subseteq> (\<Union>l\<in>set ls. set l) - {[]}"
    using select_loop_subset [of "all_urls ls" "{}" num_urls] ls(2)
    by (simp add: set_truthy_all_urls)
  moreover have "ls = map hd search_results"
    using ls(1) by (simp add: first_items_Inr_iff)
  ultimately have "\<forall>u\<in>urls. u \<noteq> [] \<and> (\<exists>results\<in>set search_results. u \<in> set (hd results))"
    by auto
  moreover have "finite urls" "int (card urls) \<le> num_urls"
    using assms(1) ls(2) select_loop_finite [of "{}"] select_loop_card [of "{}" num_urls]
    by simp_all
  ultimately show ?thesis by blast
qed

text \<open>
  Claim C4.  The size bound fails for the cap 0: one template with the single URL
  \<open>a\<close> gives a set of one element.
\<close>

theorem down_select_urls_cap_zero_exceeded:
  "down_select_urls [[[''a'']]] 0 = Inr {''a''} \<and> \<not> int (card {''a''}) \<le> 0"
  by (simp add: down_select_urls_def all_urls_def zip_longest_rows item_at_def)

subsection \<open>Best match\<close>

lemma ord_doc_sorting_key_eq: "ord_doc_sorting_key doc = composite_key doc"
  by (simp add: ord_doc_sorting_key_def composite_key_def pub_year_def pub_month_def pub_day_def
      split: option.splits prod.splits)

lemma composite_key_le_iff:
  "composite_key doc \<le> composite_key best \<longleftrightarrow> not_preferred_to doc best"
  by (auto simp add: composite_key_def not_preferred_to_def)

lemma last_insort_key:
  "sorted (map f ys) \<Longrightarrow> ys \<noteq> [] \<Longrightarrow>
     last (insort_key f x ys) = (if f x < f (last ys) \<or> f x = f (last ys) then last ys else x)"
proof (induction ys)
  case Nil
  then show ?case by simp
next
  case (Cons y ys)
  show ?case
  proof (cases "ys = []")
    case True
    then show ?thesis by auto
  next
    case False
    then have "last ys \<in> set ys" by simp
    with Cons.prems have le: "f y \<le> f (last ys)" by simp
    have IH: "last (insort_key f x ys) =
        (if f x < f (last ys) \<or> f x = f (last ys) then last ys else x)"
      using Cons.IH Cons.prems False by simp
    show ?thesis
    proof (cases "f x \<le> f y")
      case True
      with le have "f x \<le> f (last ys)" by simp
      with True False show ?thesis by (auto simp: le_less)
    next
      case nle: False
      then have "insort_key f x (y # ys) = y # insort_key f x ys" by simp
      moreover have "insort_key f x ys \<noteq> []" by (cases ys) auto
      ultimately show ?thesis using IH False by simp
    qed
  qed
qed

lemma last_sort_key_index:
  "xs \<noteq> [] \<Longrightarrow>
     \<exists>i<length xs. last (sort_key f xs) = xs ! i \<and>
        (\<forall>j<length xs. f (xs ! j) \<le> f (xs ! i)) \<and>
        (\<forall>j<length xs. i < j \<longrightarrow> f (xs ! j) < f (xs ! i))"
proof (induction xs)
  case Nil
  then show ?case by simp
next
  case (Cons x xs)
  show ?case
  proof (cases "xs = []")
    case True
    then show ?thesis by simp
  next
    case False
    with Cons.IH obtain i where i: "i < length xs" "last (sort_key f xs) = xs ! i"
      "\<forall>j<length xs. f (xs ! j) \<le> f (xs ! i)" "\<forall>j<length xs. i < j \<longrightarrow> f (xs ! j) < f (xs ! i)"
      by blast
    have ne: "sort_key f xs \<noteq> []" using False by (metis length_sort length_0_conv)
    have last: "last (sort_key f (x # xs)) =
        (if f x < f (xs ! i) \<or> f x = f (xs ! i) then xs ! i else x)"
      using last_insort_key [of f "sort_key f xs" x] ne i(2) by simp
    show ?thesis
    proof (cases "f x \<le> f (xs ! i)")
      case True
      have "\<forall>j<length (x # xs). f ((x # xs) ! j) \<le> f ((x # xs) ! Suc i)"
        using True i(3) by (auto simp: nth_Cons split: nat.splits)
      moreover have "\<forall>j<length (x # xs). Suc i < j \<longrightarrow> f ((x # xs) ! j) < f ((x # xs) ! Suc i)"
        using i(4) by (auto simp: nth_Cons split: nat.splits)
      moreover have "last (sort_key f (x # xs)) = (x # xs) ! Suc i"
        using last True by auto
      ultimately show ?thesis using i(1) by (intro exI [of _ "Suc i"]) simp
    next
      case False
      then have lt: "f (xs ! i) < f x" by simp
      have "\<forall>j<length (x # xs). f ((x # xs) ! j) \<le> f ((x # xs) ! 0)"
        using lt i(3) by (auto simp: nth_Cons split: nat.splits intro: order.trans less_imp_le)
      moreover have "\<forall>j<length (x # xs). 0 < j \<longrightarrow> f ((x # xs) ! j) < f ((x # xs) ! 0)"
        using lt i(3) by (auto simp: nth_Cons split: nat.splits intro: le_less_trans)
      moreover have "last (sort_key f (x # xs)) = (x # xs) ! 0"
        using last lt by auto
      ultimately show ?thesis by (intro exI [of _ 0]) simp
    qed
  qed
qed

text \<open>
  Claim C1.  For a non-empty list, \<open>_parse_all_ord_docs\<close> returns one document of the
  list that is maximal under the composite key (year, is PDF, minus text length, month,
  day), with year, month and day \<open>-1\<close> for a document without date: it is the last
  element of the list sorted ascending by that key.  No document of the list beats it:
  each has an earlier year, or the same year and is a non-PDF against a PDF, or the
  same format and a longer text, or the same length and an earlier month, or the same
  month and a day that is not later.
\<close>

theorem parse_all_ord_docs_maximum:
  assumes "all_ord_docs \<noteq> []"
  shows "\<exists>best. parse_all_ord_docs all_ord_docs = Some best \<and>
           best \<in> set all_ord_docs \<and>
           best = last (sort_key composite_key all_ord_docs) \<and>
           sorted (map composite_key (sort_key composite_key all_ord_docs)) \<and>
           (\<forall>doc\<in>set all_ord_docs.
              composite_key doc \<le> composite_key best \<and> not_preferred_to doc best)"
proof -
  have key: "ord_doc_sorting_key = composite_key"
    by (rule ext) (rule ord_doc_sorting_key_eq)
  from last_sort_key_index [OF assms, of composite_key]
  obtain i where i: "i < length all_ord_docs"
    "last (sort_key composite_key all_ord_docs) = all_ord_docs ! i"
    "\<forall>j<length all_ord_docs. composite_key (all_ord_docs ! j) \<le> composite_key (all_ord_docs ! i)"
    by blast
  let ?best = "all_ord_docs ! i"
  have "parse_all_ord_docs all_ord_docs = Some ?best"
    using assms i(2) by (simp add: parse_all_ord_docs_def key)
  moreover have "?best \<in> set all_ord_docs"
    using i(1) by simp
  moreover have "\<forall>doc\<in>set all_ord_docs.
      composite_key doc \<le> composite_key ?best \<and> not_preferred_to doc ?best"
    using i(3) by (auto simp: in_set_conv_nth composite_key_le_iff [symmetric])
  ultimately show ?thesis
    using i(2) by auto
qed

text \<open>
  Among a long PDF, a web page and a short PDF, all of 2020, and an undated page, the
  short PDF wins.
\<close>

theorem parse_all_ord_docs_maximum_witness:
  "[pdf_2020_long, html_2020, pdf_2020_short, html_undated] \<noteq> [] \<and>
   parse_all_ord_docs [pdf_2020_long, html_2020, pdf_2020_short, html_undated]
     = Some pdf_2020_short"
  using parse_all_ord_docs_maximum [of "[pdf_2020_long, html_2020, pdf_2020_short, html_undated]"]
  by (simp add: parse_all_ord_docs_def ord_doc_sorting_key_def
      pdf_2020_long_def html_2020_def pdf_2020_short_def html_undated_def)

text \<open>Claim C8.  On the empty list \<open>_parse_all_ord_docs\<close> returns \<open>None\<close>.\<close>

theorem parse_all_ord_docs_empty: "parse_all_ord_docs [] = None"
  by (simp add: parse_all_ord_docs_def)

text \<open>
  Claim C10.  For a non-empty list the result is an element of the list, at an index
  \<open>i\<close> whose key is maximal; every document with the same full key stands at an index
  not after \<open>i\<close>: of several documents with the maximal key the one latest in the
  input is returned.
\<close>

theorem parse_all_ord_docs_latest_of_ties:
  assumes "all_ord_docs \<noteq> []"
  shows "\<exists>i<length all_ord_docs.
           parse_all_ord_docs all_ord_docs = Some (all_ord_docs ! i) \<and>
           (\<forall>j<length all_ord_docs.
              ord_doc_sorting_key (all_ord_docs ! j) \<le> ord_doc_sorting_key (all_ord_docs ! i)) \<and>
           (\<forall>j<length all_ord_docs.
              ord_doc_sorting_key (all_ord_docs ! j) = ord_doc_sorting_key (all_ord_docs ! i)
              \<longrightarrow> j \<le> i)"
proof -
  from last_sort_key_index [OF assms, of ord_doc_sorting_key]
  obtain i where i: "i < length all_ord_docs"
    "last (sort_key ord_doc_sorting_key all_ord_docs) = all_ord_docs ! i"
    "\<forall>j<length all_ord_docs.
       ord_doc_sorting_key (all_ord_docs ! j) \<le> ord_doc_sorting_key (all_ord_docs ! i)"
    "\<forall>j<length all_ord_docs. i < j \<longrightarrow>
       ord_doc_sorting_key (all_ord_docs ! j) < ord_doc_sorting_key (all_ord_docs ! i)"
    by blast
  have "\<forall>j<length all_ord_docs.
      ord_doc_sorting_key (all_ord_docs ! j) = ord_doc_sorting_key (all_ord_docs ! i) \<longrightarrow> j \<le> i"
  proof (intro allI impI)
    fix j assume j: "j < length all_ord_docs"
      "ord_doc_sorting_key (all_ord_docs ! j) = ord_doc_sorting_key (all_ord_docs ! i)"
    show "j \<le> i"
    proof (rule ccontr)
      assume "\<not> j \<le> i"
      with i(4) j(1) have
        "ord_doc_sorting_key (all_ord_docs ! j) < ord_doc_sorting_key (all_ord_docs ! i)"
        by simp
      with j(2) show False by simp
    qed
  qed
  moreover have "parse_all_ord_docs all_ord_docs = Some (all_ord_docs ! i)"
    using assms i(2) by (simp add: parse_all_ord_docs_def)
  ultimately show ?thesis using i(1) i(3) by blast
qed

text \<open>Two undated pages with texts of the same length, in both orders.\<close>

theorem parse_all_ord_docs_latest_of_ties_witness:
  "[html_undated, html_undated_twin] \<noteq> [] \<and>
   ord_doc_sorting_key html_undated = ord_doc_sorting_key html_undated_twin \<and>
   parse_all_ord_docs [html_undated, html_undated_twin] = Some html_undated_twin \<and>
   parse_all_ord_docs [html_undated_twin, html_undated] = Some html_undated"
  using parse_all_ord_docs_latest_of_ties [of "[html_undated, html_undated_twin]"]
    parse_all_ord_docs_latest_of_ties [of "[html_undated_twin, html_undated]"]
  by (simp add: parse_all_ord_docs_def ord_doc_sorting_key_def
      html_undated_def html_undated_twin_def)

subsection \<open>Jurisdiction filter\<close>

lemma gather_trace: "fst (gather tasks) = concat (map fst tasks)"
  by (induction tasks) (auto split: prod.splits)

lemma gather_result:
  "snd (gather tasks) =
     (case List.find (\<lambda>task. isl (snd task)) tasks of
        Some task \<Rightarrow> Inl (projl (snd task))
      | None \<Rightarrow> Inr (map (\<lambda>task. projr (snd task)) tasks))"
proof (induction tasks)
  case Nil
  then show ?case by simp
next
  case (Cons task tasks)
  obtain t r where task: "task = (t, r)" by (cases task)
  show ?case
    using Cons by (cases r) (auto simp: task split: prod.splits sum.splits option.splits)
qed

lemma gather_all_ok:
  assumes "\<forall>task\<in>set tasks. \<not> isl (snd task)"
  shows "gather tasks = (concat (map fst tasks), Inr (map (\<lambda>task. projr (snd task)) tasks))"
proof -
  have "List.find (\<lambda>task. isl (snd task)) tasks = None"
    using assms by (auto simp add: find_None_iff)
  then have "snd (gather tasks) = Inr (map (\<lambda>task. projr (snd task)) tasks)"
    by (simp add: gather_result)
  then show ?thesis
    using gather_trace [of tasks] by (simp add: prod_eq_iff)
qed

lemma gather_some_fails:
  assumes "task \<in> set tasks" "isl (snd task)"
  shows "\<exists>failed\<in>set tasks. \<exists>e. snd failed = Inl e \<and> snd (gather tasks) = Inl e"
proof -
  have "List.find (\<lambda>task. isl (snd task)) tasks \<noteq> None"
    unfolding find_None_iff using assms by blast
  then obtain failed where f: "List.find (\<lambda>task. isl (snd task)) tasks = Some failed"
    by blast
  then have "failed \<in> set tasks" "isl (snd failed)"
    by (auto simp: find_Some_iff)
  moreover from f have "snd (gather tasks) = Inl (projl (snd failed))"
    by (simp add: gather_result)
  ultimately show ?thesis
    by (metis sum.collapse(1))
qed

lemma kept_docs:
  "map fst (filter (\<lambda>(doc, check). check) (zip docs (map g docs))) = filter g docs"
  by (induction docs) auto

lemma correct_loc_key_le_iff:
  "correct_loc_key a \<le> correct_loc_key b \<longleftrightarrow> pdf_first_then_shorter a b"
  by (auto simp: correct_loc_key_def pdf_first_then_shorter_def)

text \<open>
  Claim C2, amended.  When every county check returns, the documents whose check is
  true come back reordered ascending by the pair (document is not a PDF, text length):
  all PDF documents before all non-PDF documents, and within each group by ascending
  text length.
\<close>

theorem down_select_docs_correct_location_order:
  assumes "\<forall>doc\<in>set docs. \<exists>check. county_check env doc county st = Inr check"
  shows "\<exists>kept. snd (down_select_docs_correct_location env docs loc county st) = Inr kept \<and>
           mset kept = mset (filter (\<lambda>doc. county_check env doc county st = Inr True) docs) \<and>
           sorted (map correct_loc_key kept) \<and>
           sorted_wrt pdf_first_then_shorter kept"
proof -
  let ?tasks = "map (\<lambda>doc. ([CountyCheckCall doc county st], county_check env doc county st)) docs"
  let ?passes = "\<lambda>doc. projr (county_check env doc county st)"
  let ?kept = "sort_key correct_loc_key (filter ?passes docs)"
  have "\<forall>task\<in>set ?tasks. \<not> isl (snd task)"
    using assms by auto
  then have "snd (gather ?tasks) = Inr (map ?passes docs)"
    by (simp add: gather_all_ok comp_def)
  then have "snd (down_select_docs_correct_location env docs loc county st)
      = Inr (sort_key correct_loc_key
               (map fst (filter (\<lambda>(doc, check). check) (zip docs (map ?passes docs)))))"
    by (cases "gather ?tasks") (simp add: down_select_docs_correct_location_def and_then_def)
  then have res: "snd (down_select_docs_correct_location env docs loc county st) = Inr ?kept"
    by (simp only: kept_docs)
  have "filter ?passes docs = filter (\<lambda>doc. county_check env doc county st = Inr True) docs"
    using assms by (intro filter_cong) auto
  then have "mset ?kept = mset (filter (\<lambda>doc. county_check env doc county st = Inr True) docs)"
    by simp
  moreover have sorted: "sorted (map correct_loc_key ?kept)"
    by simp
  moreover have "sorted_wrt pdf_first_then_shorter ?kept"
    using sorted by (simp add: sorted_map correct_loc_key_le_iff)
  ultimately show ?thesis using res by blast
qed

text \<open>Two pages and two PDFs, all accepted.\<close>

theorem down_select_docs_correct_location_order_witness:
  "snd (down_select_docs_correct_location accepting
          [html_undated, pdf_2020_long, html_2020, pdf_2020_short] ''Decatur County, Indiana''
          ''Decatur'' ''Indiana'')
     = Inr [pdf_2020_short, pdf_2020_long, html_2020, html_undated]"
  using down_select_docs_correct_location_order [of
      "[html_undated, pdf_2020_long, html_2020, pdf_2020_short]" accepting "''Decatur''" "''Indiana''"
      "''Decatur County, Indiana''"]
  by (simp add: down_select_docs_correct_location_def and_then_def accepting_def accept_county_def
      correct_loc_key_def pdf_2020_long_def html_2020_def pdf_2020_short_def html_undated_def)

text \<open>
  Claim C2 as stated fails: a web page followed by a PDF, both accepted, come back with
  the PDF first, which is not ascending by (is PDF, text length).
\<close>

theorem down_select_docs_correct_location_counterexample:
  "snd (down_select_docs_correct_location accepting [html_2020, pdf_2020_long]
          ''Decatur County, Indiana'' ''Decatur'' ''Indiana'')
     = Inr [pdf_2020_long, html_2020] \<and>
   \<not> sorted (map claimed_loc_key [pdf_2020_long, html_2020])"
  by (simp add: down_select_docs_correct_location_def and_then_def accepting_def accept_county_def
      correct_loc_key_def claimed_loc_key_def pdf_2020_long_def html_2020_def)

subsection \<open>Content classification\<close>

lemma and_then_Inl: "and_then (t, Inl e) rest = (t, Inl e)"
  by (simp add: and_then_def)

lemma and_then_Inr: "and_then (t, Inr v) rest = (t @ fst (rest v), snd (rest v))"
  by (simp add: and_then_def split: prod.splits)

lemma and_then_fails: "snd step = Inl e \<Longrightarrow> snd (and_then step rest) = Inl e"
  by (cases step) (simp add: and_then_Inl)

lemma check_docs_loop_all:
  assumes "\<forall>doc\<in>set docs. \<exists>doc' flag.
             check_for_ordinance_info env doc = Inr doc' \<and>
             contains_ord_info (metadata doc') = Some flag"
  shows "check_docs_loop env docs ord_docs =
           (map OrdInfoCall docs, Inr (ord_docs @ filter has_ord_info (map (checked env) docs)))"
  using assms
proof (induction docs arbitrary: ord_docs)
  case Nil
  then show ?case by simp
next
  case (Cons doc docs)
  then obtain doc' flag where doc': "check_for_ordinance_info env doc = Inr doc'"
    "contains_ord_info (metadata doc') = Some flag"
    by auto
  have IH: "check_docs_loop env docs acc =
      (map OrdInfoCall docs, Inr (acc @ filter has_ord_info (map (checked env) docs)))" for acc
    using Cons by simp
  have flag: "has_ord_info doc' = flag" "checked env doc = doc'"
    by (simp_all add: doc' has_ord_info_def checked_def)
  show ?case
    by (cases flag) (simp_all add: doc' IH flag)
qed

lemma check_docs_loop_trace:
  "\<exists>rest. map OrdInfoCall docs = fst (check_docs_loop env docs ord_docs) @ rest"
proof (induction docs arbitrary: ord_docs)
  case Nil
  then show ?case by simp
next
  case (Cons doc docs)
  show ?case
  proof (cases "check_for_ordinance_info env doc")
    case (Inl e)
    then show ?thesis by simp
  next
    case (Inr doc')
    show ?thesis
    proof (cases "contains_ord_info (metadata doc')")
      case None
      with Inr show ?thesis by simp
    next
      case (Some flag)
      from Cons [of "if flag then ord_docs @ [doc'] else ord_docs"]
      obtain rest where "map OrdInfoCall docs =
          fst (check_docs_loop env docs (if flag then ord_docs @ [doc'] else ord_docs)) @ rest"
        by blast
      with Inr Some show ?thesis
        by (auto split: prod.splits)
    qed
  qed
qed

text \<open>
  Claim C6.  When the ordinance check returns for every document of the list, with the
  \<open>contains_ord_info\<close> flag set, \<open>_check_docs_for_ords\<close> calls it exactly once for
  every document, in input order, up to the last one, and returns exactly the checked
  documents whose flag is true, in that order.
\<close>

theorem check_docs_for_ords_all_classified:
  assumes "\<forall>doc\<in>set docs. \<exists>doc' flag.
             check_for_ordinance_info env doc = Inr doc' \<and>
             contains_ord_info (metadata doc') = Some flag"
  shows "check_docs_for_ords env docs =
           (map OrdInfoCall docs, Inr (filter has_ord_info (map (checked env) docs)))"
  using check_docs_loop_all [OF assms, of "[]"] by (simp add: check_docs_for_ords_def)

text \<open>Four documents and a check that flags the PDFs.\<close>

theorem check_docs_for_ords_all_classified_witness:
  "check_docs_for_ords (accepting\<lparr>check_for_ordinance_info := flag_pdfs\<rparr>)
     [html_2020, pdf_2020_long, html_undated, pdf_2020_short]
   = ([OrdInfoCall html_2020, OrdInfoCall pdf_2020_long, OrdInfoCall html_undated,
       OrdInfoCall pdf_2020_short],
      Inr [pdf_2020_long, pdf_2020_short])"
  using check_docs_for_ords_all_classified [of
      "[html_2020, pdf_2020_long, html_undated, pdf_2020_short]"
      "accepting\<lparr>check_for_ordinance_info := flag_pdfs\<rparr>"]
  by (simp add: accepting_def flag_pdfs_def has_ord_info_def checked_def
      pdf_2020_long_def html_2020_def pdf_2020_short_def html_undated_def)

subsection \<open>The pipeline\<close>

lemma find_urls_trace:
  "fst (find_urls env loc n) = map (\<lambda>q. SearchCall (format_question q loc) n) QUESTION_TEMPLATES"
  by (simp add: find_urls_def gather_trace comp_def search_single_def)

lemma county_checks_trace:
  "fst (down_select_docs_correct_location env docs loc county st)
     = map (\<lambda>doc. CountyCheckCall doc county st) docs"
proof -
  let ?tasks = "map (\<lambda>doc. ([CountyCheckCall doc county st], county_check env doc county st)) docs"
  obtain t r where g: "gather ?tasks = (t, r)" by (cases "gather ?tasks")
  then have "t = map (\<lambda>doc. CountyCheckCall doc county st) docs"
    using gather_trace [of ?tasks] by (simp add: comp_def)
  then show ?thesis
    by (cases r) (simp_all add: down_select_docs_correct_location_def g and_then_Inl and_then_Inr)
qed

lemma no_classifier_in_searches:
  "filter is_county_check_call (fst (find_urls env loc n)) = [] \<and>
   filter is_ord_info_call (fst (find_urls env loc n)) = []"
  by (simp add: find_urls_trace filter_empty_conv)

lemma search_failure:
  assumes "q \<in> set QUESTION_TEMPLATES" "engine_results env (format_question q loc) n = Inl e"
  shows "\<exists>e'. snd (find_urls env loc n) = Inl e' \<and>
           (\<exists>q'\<in>set QUESTION_TEMPLATES. engine_results env (format_question q' loc) n = Inl e')"
proof -
  let ?tasks = "map (\<lambda>q. search_single env loc q n) QUESTION_TEMPLATES"
  have "search_single env loc q n \<in> set ?tasks"
    using assms(1) by simp
  moreover have "isl (snd (search_single env loc q n))"
    using assms(2) by (simp add: search_single_def)
  ultimately have "\<exists>failed\<in>set ?tasks. \<exists>e. snd failed = Inl e \<and> snd (gather ?tasks) = Inl e"
    by (rule gather_some_fails)
  then obtain failed e' where f: "failed \<in> set ?tasks"
    "snd failed = Inl e'" "snd (gather ?tasks) = Inl e'"
    by blast
  from f(1) obtain q' where "q' \<in> set QUESTION_TEMPLATES" "failed = search_single env loc q' n"
    by auto
  with f(2) have "\<exists>q'\<in>set QUESTION_TEMPLATES. engine_results env (format_question q' loc) n = Inl e'"
    by (auto simp: search_single_def)
  with f(3) show ?thesis by (simp add: find_urls_def)
qed

lemma county_check_failure:
  assumes "doc \<in> set docs" "county_check env doc county st = Inl e"
  shows "\<exists>e'. snd (down_select_docs_correct_location env docs loc county st) = Inl e' \<and>
           (\<exists>doc'\<in>set docs. county_check env doc' county st = Inl e')"
proof -
  let ?task = "\<lambda>doc. ([CountyCheckCall doc county st], county_check env doc county st)"
  have "?task doc \<in> set (map ?task docs)"
    using assms(1) by simp
  moreover have "isl (snd (?task doc))"
    using assms(2) by simp
  ultimately have "\<exists>failed\<in>set (map ?task docs).
      \<exists>e. snd failed = Inl e \<and> snd (gather (map ?task docs)) = Inl e"
    by (rule gather_some_fails)
  then obtain failed e' where f: "failed \<in> set (map ?task docs)"
    "snd failed = Inl e'" "snd (gather (map ?task docs)) = Inl e'"
    by blast
  from f(1) obtain doc' where "doc' \<in> set docs" "failed = ?task doc'"
    by auto
  with f(2) have "\<exists>doc'\<in>set docs. county_check env doc' county st = Inl e'"
    by auto
  moreover have "snd (down_select_docs_correct_location env docs loc county st) = Inl e'"
    unfolding down_select_docs_correct_location_def using f(3) by (rule and_then_fails)
  ultimately show ?thesis by blast
qed

text \<open>
  Claim C5.  If the search for one of the question templates raises, the fan-out raises
  and so does the whole run, with the exception of a failing search.  If the searches
  and the loader return and the county check of one loaded document raises, the
  jurisdiction filter raises and so does the whole run, with the exception of a failing
  check.  The outcome is the exception alone: there is no partial result.
\<close>

theorem download_county_ordinance_fail_fast:
  "(q \<in> set QUESTION_TEMPLATES \<and>
    engine_results env (format_question q (full_name location)) 10 = Inl e \<longrightarrow>
      (\<exists>e'. snd (find_urls env (full_name location) 10) = Inl e' \<and>
            snd (download_county_ordinance env location num_urls) = Inl e' \<and>
            (\<exists>q'\<in>set QUESTION_TEMPLATES.
               engine_results env (format_question q' (full_name location)) 10 = Inl e')))
   \<and>
   (find_urls env (full_name location) 10 = (t, Inr search_results) \<and>
    down_select_urls search_results num_urls = Inr urls \<and>
    fetch_all env urls = Inr docs \<and>
    doc \<in> set docs \<and>
    county_check env doc (name location) (state location) = Inl e \<longrightarrow>
      (\<exists>e'. snd (down_select_docs_correct_location env docs (full_name location)
                    (name location) (state location)) = Inl e' \<and>
            snd (download_county_ordinance env location num_urls) = Inl e' \<and>
            (\<exists>doc'\<in>set docs. county_check env doc' (name location) (state location) = Inl e')))"
proof (intro conjI impI)
  assume "q \<in> set QUESTION_TEMPLATES \<and>
    engine_results env (format_question q (full_name location)) 10 = Inl e"
  then obtain e' where e': "snd (find_urls env (full_name location) 10) = Inl e'"
    "\<exists>q'\<in>set QUESTION_TEMPLATES.
       engine_results env (format_question q' (full_name location)) 10 = Inl e'"
    using search_failure [of q env "full_name location" 10 e] by blast
  have "snd (download_county_ordinance env location num_urls) = Inl e'"
    unfolding download_county_ordinance_def using e'(1) by (rule and_then_fails)
  with e' show "\<exists>e'. snd (find_urls env (full_name location) 10) = Inl e' \<and>
            snd (download_county_ordinance env location num_urls) = Inl e' \<and>
            (\<exists>q'\<in>set QUESTION_TEMPLATES.
               engine_results env (format_question q' (full_name location)) 10 = Inl e')"
    by blast
next
  assume a: "find_urls env (full_name location) 10 = (t, Inr search_results) \<and>
    down_select_urls search_results num_urls = Inr urls \<and>
    fetch_all env urls = Inr docs \<and>
    doc \<in> set docs \<and>
    county_check env doc (name location) (state location) = Inl e"
  let ?stage = "down_select_docs_correct_location env docs (full_name location)
                    (name location) (state location)"
  from a obtain e' where e': "snd ?stage = Inl e'"
    "\<exists>doc'\<in>set docs. county_check env doc' (name location) (state location) = Inl e'"
    using county_check_failure [of doc docs env "name location" "state location" e "full_name location"]
    by blast
  have "snd (and_then ?stage rest) = Inl e'" for rest :: "document list \<Rightarrow> document option traced"
    using e'(1) by (rule and_then_fails)
  then have "snd (download_county_ordinance env location num_urls) = Inl e'"
    using a by (simp add: download_county_ordinance_def and_then_Inr load_docs_def)
  with e' show "\<exists>e'. snd ?stage = Inl e' \<and>
            snd (download_county_ordinance env location num_urls) = Inl e' \<and>
            (\<exists>doc'\<in>set docs. county_check env doc' (name location) (state location) = Inl e')"
    by blast
qed

text \<open>A search engine that is down, and a county validator that is down.\<close>

theorem download_county_ordinance_fail_fast_witness:
  "snd (download_county_ordinance (accepting\<lparr>engine_results := search_down\<rparr>) decatur 5)
     = Inl (Raised ''search unavailable'') \<and>
   snd (download_county_ordinance
          \<lparr>engine_results = one_link, fetch_all = load_two, county_check = county_check_down,
           check_for_ordinance_info = keep_doc\<rparr> decatur 5)
     = Inl (Raised ''validator unavailable'')"
proof -
  let ?down = "accepting\<lparr>engine_results := search_down\<rparr>"
  let ?env = "\<lparr>engine_results = one_link, fetch_all = load_two, county_check = county_check_down,
           check_for_ordinance_info = keep_doc\<rparr>"
  let ?link = "''https://county.example/ordinance.pdf''"
  have q: "hd QUESTION_TEMPLATES \<in> set QUESTION_TEMPLATES"
    by (simp add: QUESTION_TEMPLATES_def)
  have "engine_results ?down (format_question (hd QUESTION_TEMPLATES) (full_name decatur)) 10
      = Inl (Raised ''search unavailable'')"
    by (simp add: search_down_def)
  with q download_county_ordinance_fail_fast [of _ ?down decatur]
  obtain e' q' where "snd (download_county_ordinance ?down decatur 5) = Inl e'"
    "engine_results ?down (format_question q' (full_name decatur)) 10 = Inl e'"
    by blast
  then have first: "snd (download_county_ordinance ?down decatur 5)
      = Inl (Raised ''search unavailable'')"
    by (simp add: search_down_def)
  have s: "find_urls ?env (full_name decatur) 10
      = (fst (find_urls ?env (full_name decatur) 10), Inr [[[?link]], [[?link]], [[?link]], [[?link]]])"
    by (simp add: prod_eq_iff find_urls_def QUESTION_TEMPLATES_def search_single_def one_link_def)
  have d: "down_select_urls [[[?link]], [[?link]], [[?link]], [[?link]]] 5 = Inr {?link}"
    by (simp add: down_select_urls_def all_urls_def zip_longest_rows item_at_def)
  have l: "fetch_all ?env {?link} = Inr [html_2020, pdf_2020_long]"
    by (simp add: load_two_def)
  have m: "html_2020 \<in> set [html_2020, pdf_2020_long]"
    by simp
  have c: "county_check ?env html_2020 (name decatur) (state decatur)
      = Inl (Raised ''validator unavailable'')"
    by (simp add: county_check_down_def)
  from s d l m c download_county_ordinance_fail_fast [of _ ?env decatur]
  obtain e' doc' where "snd (download_county_ordinance ?env decatur 5) = Inl e'"
    "county_check ?env doc' (name decatur) (state decatur) = Inl e'"
    by blast
  then have "snd (download_county_ordinance ?env decatur 5) = Inl (Raised ''validator unavailable'')"
    by (simp add: county_check_down_def)
  with first show ?thesis by simp
qed

lemma no_county_checks: "down_select_docs_correct_location env [] loc county st = ([], Inr [])"
  by (simp add: down_select_docs_correct_location_def and_then_def)

lemma no_ord_checks: "check_docs_for_ords env [] = ([], Inr [])"
  by (simp add: check_docs_for_ords_def)

lemma download_after_search:
  assumes "find_urls env (full_name location) 10 = (t1, Inr search_results)"
    "down_select_urls search_results num_urls = Inr urls"
    "load_docs env urls = (t2, Inr docs)"
  shows "download_county_ordinance env location num_urls =
     (case down_select_docs_correct_location env docs
             (full_name location) (name location) (state location) of
        (t3, Inl e) \<Rightarrow> (t1 @ t2 @ t3, Inl e)
      | (t3, Inr correct_loc_docs) \<Rightarrow>
          (case check_docs_for_ords env correct_loc_docs of
             (t4, Inl e) \<Rightarrow> (t1 @ t2 @ t3 @ t4, Inl e)
           | (t4, Inr ord_docs) \<Rightarrow> (t1 @ t2 @ t3 @ t4, Inr (parse_all_ord_docs ord_docs))))"
  using assms
  by (simp add: download_county_ordinance_def and_then_def split: prod.splits sum.splits)

text \<open>
  Claim C7.  After searches that return: if no URL is selected (and the loader returns
  no document for no URL), or the loader returns no document, the run returns \<open>None\<close>
  and calls neither the county check nor the ordinance check; if no document passes the
  jurisdiction filter, the run returns \<open>None\<close> and never calls the ordinance check; if
  no document passes the content classification, the run returns \<open>None\<close>.  The later
  stage functions are still entered, on an empty list, where they call no classifier.
\<close>

theorem download_county_ordinance_none_found:
  assumes "find_urls env (full_name location) 10 = (t1, Inr search_results)"
    and "down_select_urls search_results num_urls = Inr urls"
  shows "(urls = {} \<and> load_docs env {} = (t2, Inr []) \<longrightarrow>
            snd (download_county_ordinance env location num_urls) = Inr None \<and>
            filter is_county_check_call (fst (download_county_ordinance env location num_urls)) = [] \<and>
            filter is_ord_info_call (fst (download_county_ordinance env location num_urls)) = [])
       \<and> (load_docs env urls = (t2, Inr []) \<longrightarrow>
            snd (download_county_ordinance env location num_urls) = Inr None \<and>
            filter is_county_check_call (fst (download_county_ordinance env location num_urls)) = [] \<and>
            filter is_ord_info_call (fst (download_county_ordinance env location num_urls)) = [])
       \<and> (load_docs env urls = (t2, Inr docs) \<and>
          down_select_docs_correct_location env docs
            (full_name location) (name location) (state location) = (t3, Inr []) \<longrightarrow>
            snd (download_county_ordinance env location num_urls) = Inr None \<and>
            filter is_ord_info_call (fst (download_county_ordinance env location num_urls)) = [])
       \<and> (load_docs env urls = (t2, Inr docs) \<and>
          down_select_docs_correct_location env docs
            (full_name location) (name location) (state location) = (t3, Inr correct_loc_docs) \<and>
          check_docs_for_ords env correct_loc_docs = (t4, Inr []) \<longrightarrow>
            snd (download_county_ordinance env location num_urls) = Inr None)"
proof -
  have t1: "filter is_county_check_call t1 = []" "filter is_ord_info_call t1 = []"
    using no_classifier_in_searches [of env "full_name location" 10] assms(1) by simp_all
  have empty: "snd (download_county_ordinance env location num_urls) = Inr None \<and>
      filter is_county_check_call (fst (download_county_ordinance env location num_urls)) = [] \<and>
      filter is_ord_info_call (fst (download_county_ordinance env location num_urls)) = []"
    if "load_docs env urls = (t2, Inr [])"
  proof -
    from that have "t2 = [FetchCall urls]" by (simp add: load_docs_def)
    then show ?thesis
      using t1 by (simp add: download_after_search [OF assms that] no_county_checks
          no_ord_checks parse_all_ord_docs_def)
  qed
  have no_match: "snd (download_county_ordinance env location num_urls) = Inr None \<and>
      filter is_ord_info_call (fst (download_county_ordinance env location num_urls)) = []"
    if l: "load_docs env urls = (t2, Inr docs)"
      and c: "down_select_docs_correct_location env docs
            (full_name location) (name location) (state location) = (t3, Inr [])"
  proof -
    from l have "t2 = [FetchCall urls]" by (simp add: load_docs_def)
    moreover have "t3 = map (\<lambda>doc. CountyCheckCall doc (name location) (state location)) docs"
      using county_checks_trace [of env docs "full_name location" "name location" "state location"] c
      by simp
    ultimately show ?thesis
      using t1 by (simp add: download_after_search [OF assms l] c no_ord_checks
          parse_all_ord_docs_def filter_empty_conv)
  qed
  have no_ord: "snd (download_county_ordinance env location num_urls) = Inr None"
    if l: "load_docs env urls = (t2, Inr docs)"
      and c: "down_select_docs_correct_location env docs
            (full_name location) (name location) (state location) = (t3, Inr correct_loc_docs)"
      and o: "check_docs_for_ords env correct_loc_docs = (t4, Inr [])"
    by (simp add: download_after_search [OF assms l] c o parse_all_ord_docs_def)
  from empty no_match no_ord show ?thesis by blast
qed

text \<open>
  A search without links; a validator that rejects every document; an ordinance check
  that flags no document.
\<close>

theorem download_county_ordinance_none_found_witness:
  "snd (download_county_ordinance accepting decatur 5) = Inr None \<and>
   filter is_county_check_call (fst (download_county_ordinance accepting decatur 5)) = [] \<and>
   filter is_ord_info_call (fst (download_county_ordinance accepting decatur 5)) = [] \<and>
   snd (download_county_ordinance
          \<lparr>engine_results = one_link, fetch_all = load_two, county_check = reject_county,
           check_for_ordinance_info = keep_doc\<rparr> decatur 5) = Inr None \<and>
   filter is_ord_info_call (fst (download_county_ordinance
          \<lparr>engine_results = one_link, fetch_all = load_two, county_check = reject_county,
           check_for_ordinance_info = keep_doc\<rparr> decatur 5)) = [] \<and>
   snd (download_county_ordinance
          \<lparr>engine_results = one_link, fetch_all = load_two, county_check = accept_county,
           check_for_ordinance_info = flag_none\<rparr> decatur 5) = Inr None"
proof -
  let ?reject = "\<lparr>engine_results = one_link, fetch_all = load_two, county_check = reject_county,
           check_for_ordinance_info = keep_doc\<rparr>"
  let ?no_ord = "\<lparr>engine_results = one_link, fetch_all = load_two, county_check = accept_county,
           check_for_ordinance_info = flag_none\<rparr>"
  let ?link = "''https://county.example/ordinance.pdf''"
  let ?links = "[[[?link]], [[?link]], [[?link]], [[?link]]]"
  have s0: "find_urls accepting (full_name decatur) 10
      = (fst (find_urls accepting (full_name decatur) 10), Inr [[[]], [[]], [[]], [[]]])"
    by (simp add: prod_eq_iff find_urls_def QUESTION_TEMPLATES_def search_single_def
        accepting_def no_links_def)
  have d0: "down_select_urls [[[]], [[]], [[]], [[]]] 5 = Inr {}"
    by (simp add: down_select_urls_def all_urls_def zip_longest_rows)
  have l0: "load_docs accepting {} = ([FetchCall {}], Inr [])"
    by (simp add: load_docs_def accepting_def no_docs_def)
  have first: "snd (download_county_ordinance accepting decatur 5) = Inr None \<and>
      filter is_county_check_call (fst (download_county_ordinance accepting decatur 5)) = [] \<and>
      filter is_ord_info_call (fst (download_county_ordinance accepting decatur 5)) = []"
    using download_county_ordinance_none_found [OF s0 d0, of "[FetchCall {}]"] l0 by blast
  have d: "down_select_urls ?links 5 = Inr {?link}"
    by (simp add: down_select_urls_def all_urls_def zip_longest_rows item_at_def)
  have s1: "find_urls ?reject (full_name decatur) 10
      = (fst (find_urls ?reject (full_name decatur) 10), Inr ?links)"
    by (simp add: prod_eq_iff find_urls_def QUESTION_TEMPLATES_def search_single_def one_link_def)
  have l1: "load_docs ?reject {?link} = ([FetchCall {?link}], Inr [html_2020, pdf_2020_long])"
    by (simp add: load_docs_def load_two_def)
  have c1: "down_select_docs_correct_location ?reject [html_2020, pdf_2020_long]
       (full_name decatur) (name decatur) (state decatur)
      = ([CountyCheckCall html_2020 (name decatur) (state decatur),
          CountyCheckCall pdf_2020_long (name decatur) (state decatur)], Inr [])"
    by (simp add: down_select_docs_correct_location_def and_then_def reject_county_def)
  have second: "snd (download_county_ordinance ?reject decatur 5) = Inr None \<and>
      filter is_ord_info_call (fst (download_county_ordinance ?reject decatur 5)) = []"
    using download_county_ordinance_none_found [OF s1 d] l1 c1 by blast
  have s2: "find_urls ?no_ord (full_name decatur) 10
      = (fst (find_urls ?no_ord (full_name decatur) 10), Inr ?links)"
    by (simp add: prod_eq_iff find_urls_def QUESTION_TEMPLATES_def search_single_def one_link_def)
  have l2: "load_docs ?no_ord {?link} = ([FetchCall {?link}], Inr [html_2020, pdf_2020_long])"
    by (simp add: load_docs_def load_two_def)
  have c2: "down_select_docs_correct_location ?no_ord [html_2020, pdf_2020_long]
       (full_name decatur) (name decatur) (state decatur)
      = ([CountyCheckCall html_2020 (name decatur) (state decatur),
          CountyCheckCall pdf_2020_long (name decatur) (state decatur)],
         Inr [pdf_2020_long, html_2020])"
    by (simp add: down_select_docs_correct_location_def and_then_def accept_county_def
        correct_loc_key_def pdf_2020_long_def html_2020_def)
  have o2: "check_docs_for_ords ?no_ord [pdf_2020_long, html_2020]
      = ([OrdInfoCall pdf_2020_long, OrdInfoCall html_2020], Inr [])"
    by (simp add: check_docs_for_ords_def flag_none_def)
  have third: "snd (download_county_ordinance ?no_ord decatur 5) = Inr None"
    using download_county_ordinance_none_found [OF s2 d] l2 c2 o2 by blast
  from first second third show ?thesis by blast
qed

end
